theory Spec2Isabelle
  imports Main "HOL-Library.Word" "HOL-Library.Monad_Syntax" "HOL-Library.Signed_Division"
begin

unbundle bit_operations_syntax

section \<open>Go values\<close>

text \<open>
  Go's \<^verbatim>\<open>byte\<close> is \<open>8 word\<close>, \<^verbatim>\<open>int32\<close> and \<^verbatim>\<open>uint32\<close> are \<open>32 word\<close> (read
  signed with \<open>sint\<close>, shifted right with \<open>signed_drop_bit\<close> for \<^verbatim>\<open>int32\<close> and
  with \<open>drop_bit\<close> for \<^verbatim>\<open>uint32\<close>). Go's \<^verbatim>\<open>int\<close> holds slice lengths, indices and
  12-bit probabilities here, none of which comes near its limits, and is \<open>int\<close>; an index
  that the code never lets go negative is \<open>nat\<close>. Division on \<^verbatim>\<open>int\<close> truncates towards
  zero (\<open>sdiv\<close>), \<^verbatim>\<open>>>\<close> on \<^verbatim>\<open>int\<close> is \<open>drop_bit\<close>.

  A run-time panic (index out of range, explicit \<^verbatim>\<open>panic\<close>) is the value \<open>None\<close>; a
  function that returns normally returns \<open>Some\<close>. An \<^verbatim>\<open>error\<close> result is an
  \<open>error option\<close>, \<open>None\<close> being \<^verbatim>\<open>nil\<close>.
\<close>

type_synonym byte = "8 word"
type_synonym int32 = "32 word"

datatype error =
  ErrAliased          \<comment> \<open>Input and output buffers cannot be equal\<close>
  | ErrOutputTooSmall \<comment> \<open>Output buffer is too small\<close>
  | ErrNotBinary      \<comment> \<open>Not a binary or not enough jumps\<close>
  | ErrNotCompressed  \<comment> \<open>Input not compressed\<close>
  | ErrInvalidInput   \<comment> \<open>Invalid input data\<close>
  | ErrStartsWithRun  \<comment> \<open>Invalid input data: input starts with a run\<close>
  | ErrInvalidRun     \<comment> \<open>Invalid run length\<close>
  | ErrNotText        \<comment> \<open>Input is not text, skipping\<close>
  | ErrTextTooSmall   \<comment> \<open>Text transform failed. Output buffer too small\<close>
  | ErrTextIndex      \<comment> \<open>Text transform failed. Source index: .., expected: ..\<close>

text \<open>
  A slice is the address of its first element and its elements. The codecs compare
  \<^verbatim>\<open>&src[0]\<close> with \<^verbatim>\<open>&dst[0]\<close>; taking the address of element 0 of an empty slice
  panics. Two slices given to a codec either start at the same element or share no memory.
\<close>

record slice =
  addr :: nat
  elems :: "byte list"

definition addr0 :: "slice \<Rightarrow> nat option" where
  "addr0 s = (if elems s = [] then None else Some (addr s))"

definition rd :: "'a list \<Rightarrow> nat \<Rightarrow> 'a option" where
  "rd xs i = (if i < length xs then Some (xs ! i) else None)"

definition wr :: "'a list \<Rightarrow> nat \<Rightarrow> 'a \<Rightarrow> 'a list option" where
  "wr xs i v = (if i < length xs then Some (xs[i := v]) else None)"

text \<open>The result of a codec call: bytes read, bytes written, the error, and the
  destination's elements after the call.\<close>

type_synonym codec_result = "(nat \<times> nat \<times> error option) \<times> byte list"

declare Option.bind_cong [fundef_cong]

section \<open>X86 codec (function/TextCodec.go, X86Codec)\<close>

definition X86_INSTRUCTION_MASK :: byte where "X86_INSTRUCTION_MASK = 0xFE"
definition X86_INSTRUCTION_JUMP :: byte where "X86_INSTRUCTION_JUMP = 0xE8"
definition X86_ADDRESS_MASK :: byte where "X86_ADDRESS_MASK = 0xD5"
definition X86_ESCAPE :: byte where "X86_ESCAPE = 0x02"

definition X86_MaxEncodedLen :: "int \<Rightarrow> int" where
  "X86_MaxEncodedLen srcLen =
     (if srcLen \<ge> 2 ^ 30 then srcLen
      else if srcLen \<le> 512 then srcLen + 32
      else srcLen + srcLen sdiv 16)"

text \<open>The loop of \<^verbatim>\<open>Forward\<close> that counts the jumps, from index \<open>i\<close>.\<close>

function X86_count_jumps :: "byte list \<Rightarrow> int \<Rightarrow> nat \<Rightarrow> int \<Rightarrow> int option" where
  "X86_count_jumps src end i jumps =
     (if int i < end then
        do {
          b \<leftarrow> rd src i;
          if b AND X86_INSTRUCTION_MASK = X86_INSTRUCTION_JUMP then
            do {
              s \<leftarrow> rd src (i + 4);
              if s = 0 \<or> s = 255 then
                (if b \<noteq> 0 \<and> b \<noteq> 1 \<and> b \<noteq> X86_ESCAPE
                 then X86_count_jumps src end (i + 1) (jumps + 1)
                 else X86_count_jumps src end (i + 1) jumps)
              else X86_count_jumps src end (i + 1) jumps
            }
          else X86_count_jumps src end (i + 1) jumps
        }
      else Some jumps)"
  by pat_completeness auto
termination
  by (relation "measure (\<lambda>(src, end, i, jumps). nat (end - int i))") auto

text \<open>The main loop of \<^verbatim>\<open>Forward\<close>, from \<open>(srcIdx, dstIdx)\<close>.\<close>

function X86_forward_loop ::
  "byte list \<Rightarrow> int \<Rightarrow> nat \<Rightarrow> nat \<Rightarrow> byte list \<Rightarrow> (nat \<times> nat \<times> byte list) option" where
  "X86_forward_loop src end srcIdx dstIdx dst =
     (if int srcIdx < end then
        do {
          b \<leftarrow> rd src srcIdx;
          dst \<leftarrow> wr dst dstIdx b;
          if b AND X86_INSTRUCTION_MASK \<noteq> X86_INSTRUCTION_JUMP then
            X86_forward_loop src end (srcIdx + 1) (dstIdx + 1) dst
          else
            do {
              cur \<leftarrow> rd src (srcIdx + 1);
              if cur = 0 \<or> cur = 1 \<or> cur = X86_ESCAPE then
                do {
                  dst \<leftarrow> wr dst (dstIdx + 1) X86_ESCAPE;
                  dst \<leftarrow> wr dst (dstIdx + 2) cur;
                  X86_forward_loop src end (srcIdx + 2) (dstIdx + 3) dst
                }
              else
                do {
                  sgn \<leftarrow> rd src (srcIdx + 4);
                  if sgn \<noteq> 0 \<and> sgn \<noteq> 255 then
                    X86_forward_loop src end (srcIdx + 1) (dstIdx + 1) dst
                  else
                    do {
                      s1 \<leftarrow> rd src (srcIdx + 2);
                      s2 \<leftarrow> rd src (srcIdx + 3);
                      let addr = (ucast cur OR push_bit 8 (ucast s1) OR
                                  push_bit 16 (ucast s2) OR push_bit 24 (ucast sgn) :: int32);
                      let addr = addr + word_of_nat (srcIdx + 1);
                      dst \<leftarrow> wr dst (dstIdx + 1) (sgn + 1);
                      dst \<leftarrow> wr dst (dstIdx + 2) (X86_ADDRESS_MASK XOR ucast (signed_drop_bit 16 addr));
                      dst \<leftarrow> wr dst (dstIdx + 3) (X86_ADDRESS_MASK XOR ucast (signed_drop_bit 8 addr));
                      dst \<leftarrow> wr dst (dstIdx + 4) (X86_ADDRESS_MASK XOR ucast addr);
                      X86_forward_loop src end (srcIdx + 5) (dstIdx + 5) dst
                    }
                }
            }
        }
      else Some (srcIdx, dstIdx, dst))"
  by pat_completeness auto
termination
  by (relation "measure (\<lambda>(src, end, srcIdx, dstIdx, dst). nat (end - int srcIdx))") auto

text \<open>The closing loop of \<^verbatim>\<open>Forward\<close> and of \<^verbatim>\<open>Inverse\<close>, which copies what is left.\<close>

function X86_copy_rest ::
  "byte list \<Rightarrow> nat \<Rightarrow> nat \<Rightarrow> byte list \<Rightarrow> (nat \<times> nat \<times> byte list) option" where
  "X86_copy_rest src srcIdx dstIdx dst =
     (if srcIdx < length src then
        do {
          b \<leftarrow> rd src srcIdx;
          dst \<leftarrow> wr dst dstIdx b;
          X86_copy_rest src (srcIdx + 1) (dstIdx + 1) dst
        }
      else Some (srcIdx, dstIdx, dst))"
  by pat_completeness auto
termination
  by (relation "measure (\<lambda>(src, srcIdx, dstIdx, dst). length src - srcIdx)") auto

definition X86_Forward :: "slice \<Rightarrow> slice \<Rightarrow> codec_result option" where
  "X86_Forward src dst =
     do {
       a \<leftarrow> addr0 src;
       b \<leftarrow> addr0 dst;
       if a = b then Some ((0, 0, Some ErrAliased), elems dst)
       else
         let count = int (length (elems src)) in
         if int (length (elems dst)) < X86_MaxEncodedLen count
         then Some ((0, 0, Some ErrOutputTooSmall), elems dst)
         else
           do {
             let end = count - 8;
             jumps \<leftarrow> X86_count_jumps (elems src) end 0 0;
             if jumps < drop_bit 7 count then Some ((0, 0, Some ErrNotBinary), elems dst)
             else
               do {
                 (srcIdx, dstIdx, d) \<leftarrow> X86_forward_loop (elems src) end 0 0 (elems dst);
                 (srcIdx, dstIdx, d) \<leftarrow> X86_copy_rest (elems src) srcIdx dstIdx d;
                 Some ((srcIdx, dstIdx, None), d)
               }
           }
     }"

text \<open>The main loop of \<^verbatim>\<open>Inverse\<close>, from \<open>(srcIdx, dstIdx)\<close>.\<close>

function X86_inverse_loop ::
  "byte list \<Rightarrow> int \<Rightarrow> nat \<Rightarrow> nat \<Rightarrow> byte list \<Rightarrow> (nat \<times> nat \<times> byte list) option" where
  "X86_inverse_loop src end srcIdx dstIdx dst =
     (if int srcIdx < end then
        do {
          b \<leftarrow> rd src srcIdx;
          dst \<leftarrow> wr dst dstIdx b;
          if b AND X86_INSTRUCTION_MASK \<noteq> X86_INSTRUCTION_JUMP then
            X86_inverse_loop src end (srcIdx + 1) (dstIdx + 1) dst
          else
            do {
              sgn \<leftarrow> rd src (srcIdx + 1);
              if sgn = X86_ESCAPE then
                X86_inverse_loop src end (srcIdx + 2) (dstIdx + 1) dst
              else if sgn \<noteq> 1 \<and> sgn \<noteq> 0 then
                X86_inverse_loop src end (srcIdx + 1) (dstIdx + 1) dst
              else
                do {
                  s3 \<leftarrow> rd src (srcIdx + 4);
                  s2 \<leftarrow> rd src (srcIdx + 3);
                  s1 \<leftarrow> rd src (srcIdx + 2);
                  let addr = ((ucast X86_ADDRESS_MASK XOR ucast s3) OR
                              push_bit 8 (ucast X86_ADDRESS_MASK XOR ucast s2) OR
                              push_bit 16 (ucast X86_ADDRESS_MASK XOR ucast s1) OR
                              push_bit 24 (0xFF AND ucast (sgn - 1)) :: int32);
                  let addr = addr - word_of_nat (dstIdx + 1);
                  dst \<leftarrow> wr dst (dstIdx + 1) (ucast addr);
                  dst \<leftarrow> wr dst (dstIdx + 2) (ucast (signed_drop_bit 8 addr));
                  dst \<leftarrow> wr dst (dstIdx + 3) (ucast (signed_drop_bit 16 addr));
                  dst \<leftarrow> wr dst (dstIdx + 4) (sgn - 1);
                  X86_inverse_loop src end (srcIdx + 5) (dstIdx + 5) dst
                }
            }
        }
      else Some (srcIdx, dstIdx, dst))"
  by pat_completeness auto
termination
  by (relation "measure (\<lambda>(src, end, srcIdx, dstIdx, dst). nat (end - int srcIdx))") auto

definition X86_Inverse :: "slice \<Rightarrow> slice \<Rightarrow> codec_result option" where
  "X86_Inverse src dst =
     do {
       a \<leftarrow> addr0 src;
       b \<leftarrow> addr0 dst;
       if a = b then Some ((0, 0, Some ErrAliased), elems dst)
       else
         do {
           let count = int (length (elems src));
           let end = count - 8;
           (srcIdx, dstIdx, d) \<leftarrow> X86_inverse_loop (elems src) end 0 0 (elems dst);
           (srcIdx, dstIdx, d) \<leftarrow> X86_copy_rest (elems src) srcIdx dstIdx d;
           Some ((srcIdx, dstIdx, None), d)
         }
     }"

section \<open>Run length transform (function/RLT.go)\<close>

definition RLT_RUN_LEN_ENCODE1 :: int where "RLT_RUN_LEN_ENCODE1 = 224"
definition RLT_RUN_LEN_ENCODE2 :: int where "RLT_RUN_LEN_ENCODE2 = push_bit 8 (255 - 224)"
definition RLT_RUN_THRESHOLD :: int where "RLT_RUN_THRESHOLD = 3"
definition RLT_MAX_RUN :: int where
  "RLT_MAX_RUN = 0xFFFF + RLT_RUN_LEN_ENCODE2 + RLT_RUN_THRESHOLD - 1"
definition RLT_MAX_RUN4 :: int where "RLT_MAX_RUN4 = RLT_MAX_RUN - 4"

definition RLT_MaxEncodedLen :: "int \<Rightarrow> int" where
  "RLT_MaxEncodedLen srcLen = (if srcLen \<le> 512 then srcLen + 32 else srcLen)"

text \<open>
  Modelled from the spec: \<^verbatim>\<open>kanzi.ComputeHistogram\<close> is not among the sources; the
  specification calls it the byte histogram of the shared utilities. With the arguments
  \<^verbatim>\<open>(block, freqs, true, false)\<close> it fills \<^verbatim>\<open>freqs[b]\<close>, initially zero, with the number
  of occurrences of the byte \<open>b\<close> in the block.
\<close>

definition ComputeHistogram :: "byte list \<Rightarrow> int list" where
  "ComputeHistogram block = map (\<lambda>i. int (count_list block (word_of_nat i))) [0..<256]"

text \<open>The search for the escape symbol: \<^verbatim>\<open>for i, f := range freqs\<close>, from index \<open>i\<close>, with
  the elements from \<open>i\<close> on as last argument.\<close>

fun RLT_select_loop :: "int list \<Rightarrow> nat \<Rightarrow> nat \<Rightarrow> int list \<Rightarrow> nat" where
  "RLT_select_loop freqs i minIdx [] = minIdx"
| "RLT_select_loop freqs i minIdx (f # fs) =
     (if f < freqs ! minIdx
      then (if f = 0 then i else RLT_select_loop freqs (i + 1) i fs)
      else RLT_select_loop freqs (i + 1) minIdx fs)"

definition RLT_select_escape :: "int list \<Rightarrow> byte" where
  "RLT_select_escape freqs =
     (let minIdx = (if freqs ! 0 > 0 then RLT_select_loop freqs 0 0 freqs else 0)
      in word_of_nat minIdx)"

text \<open>\<^verbatim>\<open>emitRunLength(dst[off:], run, escape, val)\<close>: the sub-slice is the destination and
  the offset \<open>off\<close>; the result is the returned index, the error and the destination.\<close>

definition emitRunLength ::
  "byte list \<Rightarrow> nat \<Rightarrow> int \<Rightarrow> byte \<Rightarrow> byte \<Rightarrow> (nat \<times> error option \<times> byte list) option" where
  "emitRunLength dst off run escape val =
     do {
       dst \<leftarrow> wr dst off val;
       (dstIdx, dst) \<leftarrow>
         (if val = escape then do { dst \<leftarrow> wr dst (off + 1) 0; Some (2, dst) }
          else Some (1, dst));
       dst \<leftarrow> wr dst (off + dstIdx) escape;
       let dstIdx = dstIdx + 1;
       let run = run - RLT_RUN_THRESHOLD;
       if run \<ge> RLT_RUN_LEN_ENCODE1 then
         (if run < RLT_RUN_LEN_ENCODE2 then
            (if int dstIdx \<ge> int (length dst) - int off - 2
             then Some (dstIdx, Some ErrOutputTooSmall, dst)
             else
               do {
                 let run = run - RLT_RUN_LEN_ENCODE1;
                 dst \<leftarrow> wr dst (off + dstIdx) (word_of_int (RLT_RUN_LEN_ENCODE1 + drop_bit 8 run));
                 dst \<leftarrow> wr dst (off + dstIdx + 1) (word_of_int run);
                 Some (dstIdx + 2, None, dst)
               })
          else
            (if int dstIdx \<ge> int (length dst) - int off - 3
             then Some (dstIdx, Some ErrOutputTooSmall, dst)
             else
               do {
                 let run = run - RLT_RUN_LEN_ENCODE2;
                 dst \<leftarrow> wr dst (off + dstIdx) 0xFF;
                 dst \<leftarrow> wr dst (off + dstIdx + 1) (word_of_int (drop_bit 8 run));
                 dst \<leftarrow> wr dst (off + dstIdx + 2) (word_of_int run);
                 Some (dstIdx + 3, None, dst)
               }))
       else
         do {
           dst \<leftarrow> wr dst (off + dstIdx) (word_of_int run);
           Some (dstIdx + 1, None, dst)
         }
     }"

text \<open>\<open>n\<close> times \<^verbatim>\<open>dst[dstIdx] = v; dstIdx++\<close>, and \<open>n\<close> times
  \<^verbatim>\<open>dst[dstIdx] = escape; dst[dstIdx+1] = 0; dstIdx += 2\<close>.\<close>

fun RLT_put :: "byte list \<Rightarrow> nat \<Rightarrow> byte \<Rightarrow> nat \<Rightarrow> (nat \<times> byte list) option" where
  "RLT_put dst dstIdx v 0 = Some (dstIdx, dst)"
| "RLT_put dst dstIdx v (Suc n) = do { dst \<leftarrow> wr dst dstIdx v; RLT_put dst (dstIdx + 1) v n }"

fun RLT_put_escapes :: "byte list \<Rightarrow> nat \<Rightarrow> byte \<Rightarrow> nat \<Rightarrow> (nat \<times> byte list) option" where
  "RLT_put_escapes dst dstIdx escape 0 = Some (dstIdx, dst)"
| "RLT_put_escapes dst dstIdx escape (Suc n) =
     do {
       dst \<leftarrow> wr dst dstIdx escape;
       dst \<leftarrow> wr dst (dstIdx + 1) 0;
       RLT_put_escapes dst (dstIdx + 2) escape n
     }"

text \<open>The unrolled comparison at the head of the main loop of \<^verbatim>\<open>Forward\<close>: the new
  \<^verbatim>\<open>srcIdx\<close> and \<^verbatim>\<open>run\<close>, and whether the loop takes its \<^verbatim>\<open>continue\<close>.\<close>

definition RLT_scan4 :: "byte list \<Rightarrow> byte \<Rightarrow> nat \<Rightarrow> int \<Rightarrow> (nat \<times> int \<times> bool) option" where
  "RLT_scan4 src prev srcIdx run =
     do {
       b \<leftarrow> rd src srcIdx;
       if prev = b then
         do {
           b \<leftarrow> rd src (srcIdx + 1);
           if prev = b then
             do {
               b \<leftarrow> rd src (srcIdx + 2);
               if prev = b then
                 do {
                   b \<leftarrow> rd src (srcIdx + 3);
                   if prev = b then Some (srcIdx + 4, run + 4, run + 4 < RLT_MAX_RUN4)
                   else Some (srcIdx + 3, run + 3, False)
                 }
               else Some (srcIdx + 2, run + 2, False)
             }
           else Some (srcIdx + 1, run + 1, False)
         }
       else Some (srcIdx, run, False)
     }"

text \<open>The state of \<^verbatim>\<open>Forward\<close> after its main loop.\<close>

record RLT_state =
  st_srcIdx :: nat
  st_dstIdx :: nat
  st_run :: int
  st_prev :: byte
  st_dst :: "byte list"
  st_err :: "error option"

function RLT_forward_loop ::
  "byte list \<Rightarrow> byte \<Rightarrow> nat \<Rightarrow> nat \<Rightarrow> int \<Rightarrow> byte \<Rightarrow> byte list \<Rightarrow> RLT_state option" where
  "RLT_forward_loop src escape sIdx dIdx rn prv d =
     (if int sIdx < int (length src) - 4 then
        do {
          (sIdx', rn', continue) \<leftarrow> RLT_scan4 src prv sIdx rn;
          if continue then RLT_forward_loop src escape sIdx' dIdx rn' prv d
          else if rn' > RLT_RUN_THRESHOLD then
            (if dIdx \<le> length d then
               do {
                 (n, err2, d') \<leftarrow> emitRunLength d dIdx rn' escape prv;
                 if err2 \<noteq> None
                 then Some \<lparr>st_srcIdx = sIdx', st_dstIdx = dIdx, st_run = rn', st_prev = prv, st_dst = d', st_err = err2\<rparr>
                 else
                   do {
                     p \<leftarrow> rd src sIdx';
                     RLT_forward_loop src escape (sIdx' + 1) (dIdx + n) 1 p d'
                   }
               }
             else None)
          else if prv \<noteq> escape then
            (if int dIdx + rn' \<ge> int (length d)
             then Some \<lparr>st_srcIdx = sIdx', st_dstIdx = dIdx, st_run = rn', st_prev = prv, st_dst = d,
                        st_err = Some ErrOutputTooSmall\<rparr>
             else
               do {
                 (dIdx', d') \<leftarrow> RLT_put d dIdx prv (nat rn');
                 p \<leftarrow> rd src sIdx';
                 RLT_forward_loop src escape (sIdx' + 1) dIdx' 1 p d'
               })
          else
            (if int dIdx + 2 * rn' \<ge> int (length d)
             then Some \<lparr>st_srcIdx = sIdx', st_dstIdx = dIdx, st_run = rn', st_prev = prv, st_dst = d,
                        st_err = Some ErrOutputTooSmall\<rparr>
             else
               do {
                 (dIdx', d') \<leftarrow> RLT_put_escapes d dIdx escape (nat rn');
                 p \<leftarrow> rd src sIdx';
                 RLT_forward_loop src escape (sIdx' + 1) dIdx' 1 p d'
               })
        }
      else Some \<lparr>st_srcIdx = sIdx, st_dstIdx = dIdx, st_run = rn, st_prev = prv, st_dst = d, st_err = None\<rparr>)"
  by pat_completeness auto
termination
  by (relation "measure (\<lambda>(src, escape, sIdx, dIdx, rn, prv, d). length src - sIdx)")
    (auto simp add: RLT_scan4_def rd_def bind_eq_Some_conv split: if_splits)

text \<open>\<^verbatim>\<open>for st_srcIdx < srcEnd && st_dstIdx < dstEnd\<close>: the copy of the last bytes.\<close>

function RLT_copy_last :: "byte list \<Rightarrow> nat \<Rightarrow> nat \<Rightarrow> byte list \<Rightarrow> (nat \<times> nat \<times> byte list) option" where
  "RLT_copy_last src sIdx dIdx d =
     (if sIdx < length src \<and> dIdx < length d then
        do {
          b \<leftarrow> rd src sIdx;
          d \<leftarrow> wr d dIdx b;
          RLT_copy_last src (sIdx + 1) (dIdx + 1) d
        }
      else Some (sIdx, dIdx, d))"
  by pat_completeness auto
termination
  by (relation "measure (\<lambda>(src, sIdx, dIdx, d). length src - sIdx)") auto

text \<open>What \<^verbatim>\<open>Forward\<close> does after the main loop when \<^verbatim>\<open>st_err == nil\<close>.\<close>

definition RLT_forward_finish :: "byte list \<Rightarrow> byte \<Rightarrow> RLT_state \<Rightarrow> codec_result option" where
  "RLT_forward_finish src escape s =
     do {
       (dIdx, e, d) \<leftarrow>
         (if st_run s > RLT_RUN_THRESHOLD then
            (if st_dstIdx s \<le> length (st_dst s) then
               do {
                 (n, err2, d') \<leftarrow> emitRunLength (st_dst s) (st_dstIdx s) (st_run s) escape (st_prev s);
                 if err2 \<noteq> None then Some (st_dstIdx s, err2, d') else Some (st_dstIdx s + n, None, d')
               }
             else None)
          else if st_prev s \<noteq> escape then
            (if int (st_dstIdx s) + st_run s < int (length (st_dst s)) then
               do {
                 (dIdx', d') \<leftarrow> RLT_put (st_dst s) (st_dstIdx s) (st_prev s) (nat (st_run s));
                 Some (dIdx', None, d')
               }
             else Some (st_dstIdx s, None, st_dst s))
          else
            (if int (st_dstIdx s) + 2 * st_run s < int (length (st_dst s)) then
               do {
                 (dIdx', d') \<leftarrow> RLT_put_escapes (st_dst s) (st_dstIdx s) escape (nat (st_run s));
                 Some (dIdx', None, d')
               }
             else Some (st_dstIdx s, None, st_dst s)));
       (sIdx, dIdx, d) \<leftarrow> RLT_copy_last src (st_srcIdx s) dIdx d;
       let e = (if sIdx \<noteq> length src then Some ErrOutputTooSmall
                else if dIdx > sIdx then Some ErrNotCompressed
                else e);
       Some ((sIdx, dIdx, e), d)
     }"

definition RLT_Forward :: "slice \<Rightarrow> slice \<Rightarrow> codec_result option" where
  "RLT_Forward src dst' =
     (if length (elems src) = 0 then Some ((0, 0, None), elems dst')
      else
        do {
          a \<leftarrow> addr0 src;
          b \<leftarrow> addr0 dst';
          if a = b then Some ((0, 0, Some ErrAliased), elems dst')
          else if int (length (elems dst')) < RLT_MaxEncodedLen (int (length (elems src)))
          then Some ((0, 0, Some ErrOutputTooSmall), elems dst')
          else
            do {
              let freqs = ComputeHistogram (elems src);
              let escape = RLT_select_escape freqs;
              p \<leftarrow> rd (elems src) 0;
              d \<leftarrow> wr (elems dst') 0 escape;
              d \<leftarrow> wr d 1 p;
              (dIdx, d) \<leftarrow> (if p = escape then do { d \<leftarrow> wr d 2 0; Some (3, d) } else Some (2, d));
              s \<leftarrow> RLT_forward_loop (elems src) escape 1 dIdx 0 p d;
              if st_err s = None then RLT_forward_finish (elems src) escape s
              else Some ((st_srcIdx s, st_dstIdx s, st_err s), st_dst s)
            }
        })"

text \<open>The main loop of \<^verbatim>\<open>Inverse\<close>: the indices, the destination and the error.\<close>

function RLT_inverse_loop ::
  "byte list \<Rightarrow> byte \<Rightarrow> nat \<Rightarrow> nat \<Rightarrow> byte list \<Rightarrow> (nat \<times> nat \<times> error option \<times> byte list) option" where
  "RLT_inverse_loop src escape sIdx dIdx d =
     (if sIdx < length src then
        do {
          b \<leftarrow> rd src sIdx;
          if b \<noteq> escape then
            (if dIdx \<ge> length d then Some (sIdx, dIdx, Some ErrInvalidInput, d)
             else
               do {
                 d \<leftarrow> wr d dIdx b;
                 RLT_inverse_loop src escape (sIdx + 1) (dIdx + 1) d
               })
          else if sIdx + 1 \<ge> length src then Some (sIdx + 1, dIdx, Some ErrInvalidInput, d)
          else
            do {
              val \<leftarrow> (if dIdx = 0 then None else rd d (dIdx - 1));
              r \<leftarrow> rd src (sIdx + 1);
              let rn = uint r;
              if rn = 0 then
                (if dIdx \<ge> length d then Some (sIdx + 2, dIdx, Some ErrInvalidInput, d)
                 else
                   do {
                     d \<leftarrow> wr d dIdx escape;
                     RLT_inverse_loop src escape (sIdx + 2) (dIdx + 1) d
                   })
              else
                do {
                  (sIdx', rn', e) \<leftarrow>
                    (if rn = 0xFF then
                       (if sIdx + 2 + 1 \<ge> length src then Some (sIdx + 2, rn, Some ErrInvalidInput)
                        else
                          do {
                            h \<leftarrow> rd src (sIdx + 2);
                            l \<leftarrow> rd src (sIdx + 3);
                            Some (sIdx + 4, (push_bit 8 (uint h) OR uint l) + RLT_RUN_LEN_ENCODE2, None)
                          })
                     else if rn \<ge> RLT_RUN_LEN_ENCODE1 then
                       (if sIdx + 2 \<ge> length src then Some (sIdx + 2, rn, Some ErrInvalidInput)
                        else
                          do {
                            l \<leftarrow> rd src (sIdx + 2);
                            Some (sIdx + 3,
                                  (push_bit 8 (rn - RLT_RUN_LEN_ENCODE1) OR uint l) + RLT_RUN_LEN_ENCODE1,
                                  None)
                          })
                     else Some (sIdx + 2, rn, None));
                  if e \<noteq> None then Some (sIdx', dIdx, e, d)
                  else
                    do {
                      let rn' = rn' + (RLT_RUN_THRESHOLD - 1);
                      if int dIdx + rn' \<ge> int (length d) \<or> rn' > RLT_MAX_RUN
                      then Some (sIdx', dIdx, Some ErrInvalidRun, d)
                      else
                        do {
                          (dIdx', d') \<leftarrow> RLT_put d dIdx val (nat rn');
                          RLT_inverse_loop src escape sIdx' dIdx' d'
                        }
                    }
                }
            }
        }
      else Some (sIdx, dIdx, None, d))"
  by pat_completeness auto
termination
  by (relation "measure (\<lambda>(src, escape, sIdx, dIdx, d). length src - sIdx)")
    (auto simp add: bind_eq_Some_conv split: if_splits)

definition RLT_Inverse :: "slice \<Rightarrow> slice \<Rightarrow> codec_result option" where
  "RLT_Inverse src dst' =
     (if length (elems src) = 0 then Some ((0, 0, None), elems dst')
      else
        do {
          a \<leftarrow> addr0 src;
          b \<leftarrow> addr0 dst';
          if a = b then Some ((0, 0, Some ErrAliased), elems dst')
          else
            do {
              escape \<leftarrow> rd (elems src) 0;
              b1 \<leftarrow> rd (elems src) 1;
              if b1 = escape then
                do {
                  b2 \<leftarrow> (if 2 < length (elems src) then rd (elems src) 2 else Some 0);
                  if 2 < length (elems src) \<and> b2 \<noteq> 0
                  then Some ((2, 0, Some ErrStartsWithRun), elems dst')
                  else
                    do {
                      d \<leftarrow> wr (elems dst') 0 escape;
                      (sIdx, dIdx, e, d) \<leftarrow> RLT_inverse_loop (elems src) escape 3 1 d;
                      let e = (if sIdx \<noteq> length (elems src) \<and> e = None
                               then Some ErrInvalidInput else e);
                      Some ((sIdx, dIdx, e), d)
                    }
                }
              else
                do {
                  (sIdx, dIdx, e, d) \<leftarrow> RLT_inverse_loop (elems src) escape 1 0 (elems dst');
                  let e = (if sIdx \<noteq> length (elems src) \<and> e = None
                           then Some ErrInvalidInput else e);
                  Some ((sIdx, dIdx, e), d)
                }
            }
        })"

section \<open>The X86 transform as a function on lists\<close>

text \<open>
  For the proofs, the bytes that \<^verbatim>\<open>Forward\<close> emits for the rest \<open>xs\<close> of the source, when
  \<open>xs\<close> starts at index \<open>p\<close>, and the bytes that \<^verbatim>\<open>Inverse\<close> emits for the rest \<open>ys\<close> of
  the encoded block when its \<^verbatim>\<open>dstIdx\<close> is \<open>q\<close>. Both loops stop eight bytes before the
  end of their input and copy the rest.
\<close>

definition X86_forward_addr :: "byte \<Rightarrow> byte \<Rightarrow> byte \<Rightarrow> byte \<Rightarrow> nat \<Rightarrow> int32" where
  "X86_forward_addr cur s1 s2 sg srcIdx =
     (ucast cur OR push_bit 8 (ucast s1) OR push_bit 16 (ucast s2) OR push_bit 24 (ucast sg))
       + word_of_nat srcIdx"

definition X86_inverse_addr :: "byte \<Rightarrow> byte \<Rightarrow> byte \<Rightarrow> byte \<Rightarrow> nat \<Rightarrow> int32" where
  "X86_inverse_addr sg s1 s2 s3 dstIdx =
     ((ucast X86_ADDRESS_MASK XOR ucast s3) OR
      push_bit 8 (ucast X86_ADDRESS_MASK XOR ucast s2) OR
      push_bit 16 (ucast X86_ADDRESS_MASK XOR ucast s1) OR
      push_bit 24 (0xFF AND ucast (sg - 1)))
       - word_of_nat dstIdx"

function X86_encoded :: "nat \<Rightarrow> byte list \<Rightarrow> byte list" where
  "X86_encoded p xs =
     (if length xs \<le> 8 then xs
      else
        let b = xs ! 0 in
        if b AND X86_INSTRUCTION_MASK \<noteq> X86_INSTRUCTION_JUMP then
          b # X86_encoded (p + 1) (drop 1 xs)
        else
          let cur = xs ! 1 in
          if cur = 0 \<or> cur = 1 \<or> cur = X86_ESCAPE then
            b # X86_ESCAPE # cur # X86_encoded (p + 2) (drop 2 xs)
          else
            let sgn = xs ! 4 in
            if sgn \<noteq> 0 \<and> sgn \<noteq> 255 then b # X86_encoded (p + 1) (drop 1 xs)
            else
              let a = X86_forward_addr cur (xs ! 2) (xs ! 3) sgn (p + 1) in
              b # (sgn + 1) #
              (X86_ADDRESS_MASK XOR ucast (signed_drop_bit 16 a)) #
              (X86_ADDRESS_MASK XOR ucast (signed_drop_bit 8 a)) #
              (X86_ADDRESS_MASK XOR ucast a) #
              X86_encoded (p + 5) (drop 5 xs))"
  by pat_completeness auto
termination
  by (relation "measure (\<lambda>(p, xs). length xs)") auto

function X86_decoded :: "nat \<Rightarrow> byte list \<Rightarrow> byte list" where
  "X86_decoded q ys =
     (if length ys \<le> 8 then ys
      else
        let b = ys ! 0 in
        if b AND X86_INSTRUCTION_MASK \<noteq> X86_INSTRUCTION_JUMP then
          b # X86_decoded (q + 1) (drop 1 ys)
        else
          let sgn = ys ! 1 in
          if sgn = X86_ESCAPE then b # X86_decoded (q + 1) (drop 2 ys)
          else if sgn \<noteq> 1 \<and> sgn \<noteq> 0 then b # X86_decoded (q + 1) (drop 1 ys)
          else
            let a = X86_inverse_addr sgn (ys ! 2) (ys ! 3) (ys ! 4) (q + 1) in
            b # ucast a # ucast (signed_drop_bit 8 a) # ucast (signed_drop_bit 16 a) # (sgn - 1) #
            X86_decoded (q + 5) (drop 5 ys))"
  by pat_completeness auto
termination
  by (relation "measure (\<lambda>(q, ys). length ys)") auto

definition X86_is_jump :: "byte \<Rightarrow> bool" where
  "X86_is_jump b \<longleftrightarrow> b AND X86_INSTRUCTION_MASK = X86_INSTRUCTION_JUMP"

definition X86_conflict :: "byte \<Rightarrow> bool" where
  "X86_conflict c \<longleftrightarrow> c = 0 \<or> c = 1 \<or> c = X86_ESCAPE"

text \<open>\<^verbatim>\<open>Inverse\<close> from \<open>(srcIdx, dstIdx)\<close> on: the main loop, then the closing loop.\<close>

definition X86_inverse_run ::
  "byte list \<Rightarrow> nat \<Rightarrow> nat \<Rightarrow> byte list \<Rightarrow> (nat \<times> nat \<times> byte list) option" where
  "X86_inverse_run src q d dst =
     X86_inverse_loop src (int (length src) - 8) q d dst \<bind>
       (\<lambda>(srcIdx, dstIdx, d). X86_copy_rest src srcIdx dstIdx d)"


text \<open>
  The claim's own notion of a valid relative jump, written from the specification: a byte
  \<^verbatim>\<open>0xE8\<close> or \<^verbatim>\<open>0xE9\<close> whose operand's sign byte is \<^verbatim>\<open>0x00\<close> or \<^verbatim>\<open>0xFF\<close> and whose
  operand's first byte is none of 0, 1 and the escape symbol.
\<close>

definition spec_valid_jump :: "byte list \<Rightarrow> nat \<Rightarrow> bool" where
  "spec_valid_jump src i \<longleftrightarrow>
     i + 4 < length src \<and> (src ! i = 0xE8 \<or> src ! i = 0xE9) \<and>
     (src ! (i + 4) = 0x00 \<or> src ! (i + 4) = 0xFF) \<and>
     src ! (i + 1) \<noteq> 0 \<and> src ! (i + 1) \<noteq> 1 \<and> src ! (i + 1) \<noteq> X86_ESCAPE"

definition spec_valid_jumps :: "byte list \<Rightarrow> nat" where
  "spec_valid_jumps src = length (filter (spec_valid_jump src) [0..<length src])"

section \<open>Lemmas on the X86 codec\<close>

declare X86_encoded.simps [simp del] X86_decoded.simps [simp del]

lemma X86_unmask: "(ucast X86_ADDRESS_MASK XOR ucast (X86_ADDRESS_MASK XOR z) :: int32) = ucast z" for z :: byte
  by (rule bit_word_eqI) (auto simp add: bit_simps)

lemma push_bit_8_eq_iff:
  fixes x y :: int32
  shows "push_bit 8 x = push_bit 8 y \<longleftrightarrow> take_bit 24 x = take_bit 24 y"
proof
  assume e: "push_bit 8 x = push_bit 8 y"
  have "bit x m \<longleftrightarrow> bit y m" if "m < 24" for m
  proof -
    have "bit (push_bit 8 x) (m + 8) \<longleftrightarrow> bit (push_bit 8 y) (m + 8)" by (simp only: e)
    with that show ?thesis by (simp add: bit_simps)
  qed
  then show "take_bit 24 x = take_bit 24 y"
    by (intro bit_word_eqI) (auto simp add: bit_simps)
next
  assume e: "take_bit 24 x = take_bit 24 y"
  have "bit x m \<longleftrightarrow> bit y m" if "m < 24" for m
  proof -
    have "bit (take_bit 24 x) m \<longleftrightarrow> bit (take_bit 24 y) m" by (simp only: e)
    with that show ?thesis by (simp add: bit_simps)
  qed
  then show "push_bit 8 x = push_bit 8 y"
    by (intro bit_word_eqI) (auto simp add: bit_simps)
qed

lemma take_bit_add_cancel:
  fixes x y n :: int32
  assumes "take_bit 24 (x + n) = take_bit 24 (y + n)"
  shows "take_bit 24 x = take_bit 24 y"
proof -
  from assms have "push_bit 8 (x + n) = push_bit 8 (y + n)"
    by (simp only: push_bit_8_eq_iff)
  then have "push_bit 8 x = push_bit 8 y"
    by (simp add: push_bit_eq_mult distrib_right)
  then show ?thesis by (simp only: push_bit_8_eq_iff)
qed

lemma X86_inverse_low24:
  fixes a :: int32 and sg :: byte
  shows "take_bit 24 (X86_inverse_addr sg
       (X86_ADDRESS_MASK XOR ucast (signed_drop_bit 16 a))
       (X86_ADDRESS_MASK XOR ucast (signed_drop_bit 8 a))
       (X86_ADDRESS_MASK XOR ucast a) n + word_of_nat n) = take_bit 24 a"
  unfolding X86_inverse_addr_def X86_unmask
  apply (rule bit_word_eqI)
  apply (auto simp add: bit_simps)
  subgoal for m by (cases "m < 16") auto
  done

lemma X86_addr_low24:
  fixes cur s1 s2 sg :: byte and n :: nat
  defines "a \<equiv> X86_forward_addr cur s1 s2 sg n"
  defines "a' \<equiv> X86_inverse_addr (sg + 1)
       (X86_ADDRESS_MASK XOR ucast (signed_drop_bit 16 a))
       (X86_ADDRESS_MASK XOR ucast (signed_drop_bit 8 a))
       (X86_ADDRESS_MASK XOR ucast a) n"
  shows "take_bit 24 a' = take_bit 24 (ucast cur OR push_bit 8 (ucast s1) OR push_bit 16 (ucast s2) :: int32)"
proof -
  let ?A = "(ucast cur OR push_bit 8 (ucast s1) OR push_bit 16 (ucast s2) OR push_bit 24 (ucast sg)) :: int32"
  have "take_bit 24 (a' + word_of_nat n) = take_bit 24 (?A + word_of_nat n)"
    unfolding a'_def using X86_inverse_low24 [of "sg + 1" a n] by (simp add: a_def X86_forward_addr_def)
  then have "take_bit 24 a' = take_bit 24 ?A" by (rule take_bit_add_cancel)
  also have "\<dots> = take_bit 24 (ucast cur OR push_bit 8 (ucast s1) OR push_bit 16 (ucast s2) :: int32)"
    by (rule bit_word_eqI) (auto simp add: bit_simps)
  finally show ?thesis .
qed

lemma X86_addr_roundtrip:
  fixes cur s1 s2 sg :: byte and n :: nat
  defines "a \<equiv> X86_forward_addr cur s1 s2 sg n"
  defines "a' \<equiv> X86_inverse_addr (sg + 1)
       (X86_ADDRESS_MASK XOR ucast (signed_drop_bit 16 a))
       (X86_ADDRESS_MASK XOR ucast (signed_drop_bit 8 a))
       (X86_ADDRESS_MASK XOR ucast a) n"
  shows "ucast a' = cur" "ucast (signed_drop_bit 8 a') = s1" "ucast (signed_drop_bit 16 a') = s2"
proof -
  let ?B = "(ucast cur OR push_bit 8 (ucast s1) OR push_bit 16 (ucast s2)) :: int32"
  have e: "take_bit 24 a' = take_bit 24 ?B"
    unfolding a'_def a_def by (rule X86_addr_low24)
  have b: "bit a' m \<longleftrightarrow> bit ?B m" if "m < 24" for m
  proof -
    have "bit (take_bit 24 a') m \<longleftrightarrow> bit (take_bit 24 ?B) m" by (simp only: e)
    with that show ?thesis by (simp only: bit_take_bit_iff simp_thms)
  qed
  show "ucast a' = cur"
    by (rule bit_word_eqI) (auto simp add: bit_simps b dest: bit_imp_le_length)
  show "ucast (signed_drop_bit 8 a') = s1"
    by (rule bit_word_eqI) (auto simp add: bit_simps b dest: bit_imp_le_length)
  show "ucast (signed_drop_bit 16 a') = s2"
    by (rule bit_word_eqI) (auto simp add: bit_simps b dest: bit_imp_le_length)
qed

lemma X86_conflict_not_jump: "X86_conflict c \<Longrightarrow> \<not> X86_is_jump c"
  by (auto simp: X86_conflict_def X86_is_jump_def X86_ESCAPE_def X86_INSTRUCTION_MASK_def
      X86_INSTRUCTION_JUMP_def)

lemma X86_encoded_short: "length xs \<le> 8 \<Longrightarrow> X86_encoded p xs = xs"
  by (subst X86_encoded.simps) simp

lemma X86_encoded_plain:
  "8 < length xs \<Longrightarrow> \<not> X86_is_jump (xs ! 0) \<Longrightarrow>
   X86_encoded p xs = xs ! 0 # X86_encoded (p + 1) (drop 1 xs)"
  by (subst X86_encoded.simps) (simp add: X86_is_jump_def)

lemma X86_encoded_escape:
  "8 < length xs \<Longrightarrow> X86_is_jump (xs ! 0) \<Longrightarrow> X86_conflict (xs ! 1) \<Longrightarrow>
   X86_encoded p xs = xs ! 0 # X86_ESCAPE # xs ! 1 # X86_encoded (p + 2) (drop 2 xs)"
  by (subst X86_encoded.simps) (simp add: X86_is_jump_def X86_conflict_def)

lemma X86_encoded_skip:
  "8 < length xs \<Longrightarrow> X86_is_jump (xs ! 0) \<Longrightarrow> \<not> X86_conflict (xs ! 1) \<Longrightarrow>
   xs ! 4 \<noteq> 0 \<Longrightarrow> xs ! 4 \<noteq> 255 \<Longrightarrow>
   X86_encoded p xs = xs ! 0 # X86_encoded (p + 1) (drop 1 xs)"
  by (subst X86_encoded.simps) (simp add: X86_is_jump_def X86_conflict_def)

lemma X86_encoded_jump:
  "8 < length xs \<Longrightarrow> X86_is_jump (xs ! 0) \<Longrightarrow> \<not> X86_conflict (xs ! 1) \<Longrightarrow>
   xs ! 4 = 0 \<or> xs ! 4 = 255 \<Longrightarrow>
   X86_encoded p xs =
     (let a = X86_forward_addr (xs ! 1) (xs ! 2) (xs ! 3) (xs ! 4) (p + 1) in
      xs ! 0 # (xs ! 4 + 1) #
      (X86_ADDRESS_MASK XOR ucast (signed_drop_bit 16 a)) #
      (X86_ADDRESS_MASK XOR ucast (signed_drop_bit 8 a)) #
      (X86_ADDRESS_MASK XOR ucast a) #
      X86_encoded (p + 5) (drop 5 xs))"
  by (subst X86_encoded.simps) (auto simp add: X86_is_jump_def X86_conflict_def Let_def)

lemma X86_decoded_short: "length ys \<le> 8 \<Longrightarrow> X86_decoded q ys = ys"
  by (subst X86_decoded.simps) simp

lemma X86_decoded_plain:
  "8 < length ys \<Longrightarrow> \<not> X86_is_jump (ys ! 0) \<Longrightarrow>
   X86_decoded q ys = ys ! 0 # X86_decoded (q + 1) (drop 1 ys)"
  by (subst X86_decoded.simps) (simp add: X86_is_jump_def)

lemma X86_decoded_escape:
  "8 < length ys \<Longrightarrow> X86_is_jump (ys ! 0) \<Longrightarrow> ys ! 1 = X86_ESCAPE \<Longrightarrow>
   X86_decoded q ys = ys ! 0 # X86_decoded (q + 1) (drop 2 ys)"
  by (subst X86_decoded.simps) (simp add: X86_is_jump_def)

lemma X86_decoded_skip:
  "8 < length ys \<Longrightarrow> X86_is_jump (ys ! 0) \<Longrightarrow> ys ! 1 \<noteq> X86_ESCAPE \<Longrightarrow>
   ys ! 1 \<noteq> 1 \<Longrightarrow> ys ! 1 \<noteq> 0 \<Longrightarrow>
   X86_decoded q ys = ys ! 0 # X86_decoded (q + 1) (drop 1 ys)"
  by (subst X86_decoded.simps) (simp add: X86_is_jump_def)

lemma X86_decoded_jump:
  "8 < length ys \<Longrightarrow> X86_is_jump (ys ! 0) \<Longrightarrow> ys ! 1 = 1 \<or> ys ! 1 = 0 \<Longrightarrow>
   X86_decoded q ys =
     (let a = X86_inverse_addr (ys ! 1) (ys ! 2) (ys ! 3) (ys ! 4) (q + 1) in
      ys ! 0 # ucast a # ucast (signed_drop_bit 8 a) # ucast (signed_drop_bit 16 a) #
      (ys ! 1 - 1) # X86_decoded (q + 5) (drop 5 ys))"
  by (subst X86_decoded.simps) (auto simp add: X86_is_jump_def X86_ESCAPE_def Let_def)

lemma X86_encoded_cases [case_names short plain escape skip jump]:
  assumes "length xs \<le> 8 \<Longrightarrow> P"
    and "8 < length xs \<Longrightarrow> \<not> X86_is_jump (xs ! 0) \<Longrightarrow> P"
    and "8 < length xs \<Longrightarrow> X86_is_jump (xs ! 0) \<Longrightarrow> X86_conflict (xs ! 1) \<Longrightarrow> P"
    and "8 < length xs \<Longrightarrow> X86_is_jump (xs ! 0) \<Longrightarrow> \<not> X86_conflict (xs ! 1) \<Longrightarrow>
         xs ! 4 \<noteq> 0 \<Longrightarrow> xs ! 4 \<noteq> 255 \<Longrightarrow> P"
    and "8 < length xs \<Longrightarrow> X86_is_jump (xs ! 0) \<Longrightarrow> \<not> X86_conflict (xs ! 1) \<Longrightarrow>
         xs ! 4 = 0 \<or> xs ! 4 = 255 \<Longrightarrow> P"
  shows P
  using assms by (cases "length xs \<le> 8"; cases "X86_is_jump (xs ! 0)"; cases "X86_conflict (xs ! 1)";
      cases "xs ! 4 = 0 \<or> xs ! 4 = 255") auto

lemma length_X86_encoded: "length xs \<le> length (X86_encoded p xs)"
proof (induction xs arbitrary: p rule: length_induct)
  case (1 xs)
  show ?case
  proof (cases xs rule: X86_encoded_cases)
    case short
    then show ?thesis by (simp add: X86_encoded_short)
  next
    case plain
    moreover have "length (drop 1 xs) \<le> length (X86_encoded (p + 1) (drop 1 xs))"
      using plain by (intro 1 [rule_format]) simp
    ultimately show ?thesis by (simp add: X86_encoded_plain)
  next
    case escape
    moreover have "length (drop 2 xs) \<le> length (X86_encoded (p + 2) (drop 2 xs))"
      using escape by (intro 1 [rule_format]) simp
    ultimately show ?thesis by (simp add: X86_encoded_escape)
  next
    case skip
    moreover have "length (drop 1 xs) \<le> length (X86_encoded (p + 1) (drop 1 xs))"
      using skip by (intro 1 [rule_format]) simp
    ultimately show ?thesis by (simp add: X86_encoded_skip)
  next
    case jump
    moreover have "length (drop 5 xs) \<le> length (X86_encoded (p + 5) (drop 5 xs))"
      using jump by (intro 1 [rule_format]) simp
    ultimately show ?thesis by (simp add: X86_encoded_jump Let_def)
  qed
qed

lemma X86_encoded_nth0: "xs \<noteq> [] \<Longrightarrow> X86_encoded p xs ! 0 = xs ! 0"
  by (cases xs rule: X86_encoded_cases)
    (simp_all add: X86_encoded_short X86_encoded_plain X86_encoded_escape X86_encoded_skip
      X86_encoded_jump Let_def)

lemma Cons_nth_drop_5:
  assumes "5 \<le> length xs"
  shows "xs ! 0 # xs ! 1 # xs ! 2 # xs ! 3 # xs ! 4 # drop 5 xs = xs"
proof -
  have "xs ! 4 # drop 5 xs = drop 4 xs" using assms Cons_nth_drop_Suc [of 4 xs] by simp
  moreover have "xs ! 3 # drop 4 xs = drop 3 xs" using assms Cons_nth_drop_Suc [of 3 xs] by simp
  moreover have "xs ! 2 # drop 3 xs = drop 2 xs" using assms Cons_nth_drop_Suc [of 2 xs] by simp
  moreover have "xs ! 1 # drop 2 xs = drop 1 xs" using assms Cons_nth_drop_Suc [of 1 xs] by (simp add: numeral_2_eq_2)
  moreover have "xs ! 0 # drop 1 xs = xs" using assms by (cases xs) auto
  ultimately show ?thesis by simp
qed

lemma X86_decoded_encoded: "X86_decoded p (X86_encoded p xs) = xs"
proof (induction xs arbitrary: p rule: length_induct)
  case (1 xs)
  have IH: "X86_decoded q (X86_encoded q (drop k xs)) = drop k xs" if "0 < k" "k \<le> length xs" for q k
    using that by (intro 1 [rule_format]) simp
  show ?case
  proof (cases xs rule: X86_encoded_cases)
    case short
    then show ?thesis by (simp add: X86_encoded_short X86_decoded_short)
  next
    case plain
    let ?e = "X86_encoded (p + 1) (drop 1 xs)"
    have e: "X86_encoded p xs = xs ! 0 # ?e" using plain by (rule X86_encoded_plain)
    have "8 < length (xs ! 0 # ?e)"
      using length_X86_encoded [of "drop 1 xs" "p + 1"] plain by simp
    then have "X86_decoded p (xs ! 0 # ?e) = xs ! 0 # X86_decoded (p + 1) ?e"
      using plain by (subst X86_decoded_plain) simp_all
    also have "\<dots> = xs ! 0 # drop 1 xs" using plain by (simp add: IH)
    also have "\<dots> = xs" using plain by (cases xs) simp_all
    finally show ?thesis by (simp add: e)
  next
    case escape
    let ?e = "X86_encoded (p + 2) (drop 2 xs)"
    have e: "X86_encoded p xs = xs ! 0 # X86_ESCAPE # xs ! 1 # ?e"
      using escape by (rule X86_encoded_escape)
    have len: "length (drop 2 xs) \<le> length ?e" by (rule length_X86_encoded)
    then have "8 < length (xs ! 0 # X86_ESCAPE # xs ! 1 # ?e)" using escape by simp
    then have "X86_decoded p (xs ! 0 # X86_ESCAPE # xs ! 1 # ?e) =
        xs ! 0 # X86_decoded (p + 1) (xs ! 1 # ?e)"
      using escape by (subst X86_decoded_escape) simp_all
    also have "X86_decoded (p + 1) (xs ! 1 # ?e) = xs ! 1 # drop 2 xs"
    proof (cases "length (xs ! 1 # ?e) \<le> 8")
      case True
      then have "length (drop 2 xs) \<le> 8" using len by simp
      then have "?e = drop 2 xs" by (rule X86_encoded_short)
      with True show ?thesis by (simp add: X86_decoded_short)
    next
      case False
      then have "X86_decoded (p + 1) (xs ! 1 # ?e) = xs ! 1 # X86_decoded (p + 2) ?e"
        using escape X86_conflict_not_jump [of "xs ! 1"] by (subst X86_decoded_plain) simp_all
      then show ?thesis using escape by (simp add: IH)
    qed
    also have "xs ! 0 # xs ! 1 # drop 2 xs = xs"
      using escape by (cases xs; cases "tl xs") simp_all
    finally show ?thesis by (simp add: e)
  next
    case skip
    let ?e = "X86_encoded (p + 1) (drop 1 xs)"
    have e: "X86_encoded p xs = xs ! 0 # ?e" using skip by (rule X86_encoded_skip)
    have h: "?e ! 0 = xs ! 1" using skip by (subst X86_encoded_nth0) simp_all
    have "8 < length (xs ! 0 # ?e)"
      using length_X86_encoded [of "drop 1 xs" "p + 1"] skip by simp
    then have "X86_decoded p (xs ! 0 # ?e) = xs ! 0 # X86_decoded (p + 1) ?e"
      using skip h by (subst X86_decoded_skip) (auto simp: X86_conflict_def)
    also have "\<dots> = xs ! 0 # drop 1 xs" using skip by (simp add: IH)
    also have "\<dots> = xs" using skip by (cases xs) simp_all
    finally show ?thesis by (simp add: e)
  next
    case jump
    define a where "a = X86_forward_addr (xs ! 1) (xs ! 2) (xs ! 3) (xs ! 4) (p + 1)"
    define m2 where "m2 = X86_ADDRESS_MASK XOR ucast (signed_drop_bit 16 a)"
    define m1 where "m1 = X86_ADDRESS_MASK XOR ucast (signed_drop_bit 8 a)"
    define m0 where "m0 = X86_ADDRESS_MASK XOR ucast a"
    let ?e = "X86_encoded (p + 5) (drop 5 xs)"
    let ?ys = "xs ! 0 # (xs ! 4 + 1) # m2 # m1 # m0 # ?e"
    have e: "X86_encoded p xs = ?ys"
      using jump by (simp add: X86_encoded_jump Let_def a_def m2_def m1_def m0_def)
    have sg: "xs ! 4 + 1 = 1 \<or> xs ! 4 + 1 = 0" using jump(4) by auto
    have "8 < length ?ys" using length_X86_encoded [of "drop 5 xs" "p + 5"] jump by simp
    then have "X86_decoded p ?ys =
      (let a' = X86_inverse_addr (xs ! 4 + 1) m2 m1 m0 (p + 1) in
       xs ! 0 # ucast a' # ucast (signed_drop_bit 8 a') # ucast (signed_drop_bit 16 a') #
       (xs ! 4 + 1 - 1) # X86_decoded (p + 5) ?e)"
      using jump(2) sg by (subst X86_decoded_jump) simp_all
    also have "\<dots> = xs ! 0 # xs ! 1 # xs ! 2 # xs ! 3 # xs ! 4 # drop 5 xs"
      using jump(1) X86_addr_roundtrip [of "xs ! 4" "xs ! 1" "xs ! 2" "xs ! 3" "p + 1"]
      by (simp add: Let_def IH a_def m2_def m1_def m0_def)
    also have "\<dots> = xs"
      using jump(1) by (intro Cons_nth_drop_5) simp
    finally show ?thesis by (simp add: e)
  qed
qed

declare X86_forward_loop.simps [simp del] X86_inverse_loop.simps [simp del]
  X86_copy_rest.simps [simp del] X86_count_jumps.simps [simp del]

lemma wr_bind: "(wr xs i v \<bind> f) = (if i < length xs then f (xs[i := v]) else None)"
  by (simp add: wr_def)

lemma rd_Some: "i < length xs \<Longrightarrow> rd xs i = Some (xs ! i)"
  by (simp add: rd_def)

lemma take_update_1:
  "d < length xs \<Longrightarrow> take (Suc d) (xs[d := a]) = take d xs @ [a]"
  by (simp add: take_Suc_conv_app_nth)

lemma take_update_3:
  assumes "d + 2 < length xs"
  shows "take (d + 3) (xs[d := a, Suc d := b, d + 2 := c]) = take d xs @ [a, b, c]"
proof -
  have "take (Suc (Suc (Suc d))) (xs[d := a, Suc d := b, Suc (Suc d) := c]) = take d xs @ [a, b, c]"
    using assms by (simp add: take_Suc_conv_app_nth)
  moreover have "d + 3 = Suc (Suc (Suc d))" "d + 2 = Suc (Suc d)" by simp_all
  ultimately show ?thesis by (simp only:)
qed

lemma take_update_5:
  assumes "d + 4 < length xs"
  shows "take (d + 5) (xs[d := a, Suc d := b, d + 2 := c, d + 3 := e, d + 4 := f]) =
         take d xs @ [a, b, c, e, f]"
proof -
  have "take (Suc (Suc (Suc (Suc (Suc d)))))
          (xs[d := a, Suc d := b, Suc (Suc d) := c, Suc (Suc (Suc d)) := e,
              Suc (Suc (Suc (Suc d))) := f]) = take d xs @ [a, b, c, e, f]"
    using assms by (simp add: take_Suc_conv_app_nth)
  moreover have "d + 5 = Suc (Suc (Suc (Suc (Suc d))))" "d + 4 = Suc (Suc (Suc (Suc d)))"
    "d + 3 = Suc (Suc (Suc d))" "d + 2 = Suc (Suc d)" by simp_all
  ultimately show ?thesis by (simp only:)
qed

lemma X86_copy_rest_eq:
  "X86_copy_rest src p d dst =
     (if length src \<le> p then Some (p, d, dst)
      else if d + (length src - p) \<le> length dst
      then Some (length src, d + (length src - p),
                 take d dst @ drop p src @ drop (d + (length src - p)) dst)
      else None)"
proof (induction "length src - p" arbitrary: p d dst)
  case 0
  then show ?case by (subst X86_copy_rest.simps) simp
next
  case (Suc n)
  then have p: "p < length src" and n: "n = length src - (p + 1)" by simp_all
  have step: "X86_copy_rest src p d dst =
      (if d < length dst then X86_copy_rest src (p + 1) (d + 1) (dst[d := src ! p]) else None)"
    using p by (subst X86_copy_rest.simps) (simp add: rd_Some wr_bind)
  show ?case
  proof (cases "d < length dst")
    case False
    with p show ?thesis by (simp add: step)
  next
    case True
    note IH = Suc.hyps(1) [OF n, of "d + 1" "dst[d := src ! p]"]
    show ?thesis
    proof (cases "length src \<le> p + 1")
      case True
      with p have e: "length src = p + 1" by simp
      have "drop p src = src ! p # drop (Suc p) src" using p by (simp add: Cons_nth_drop_Suc)
      then have "drop p src = [src ! p]" using e by simp
      moreover have "dst[d := src ! p] = take d dst @ [src ! p] @ drop (d + 1) dst"
        using \<open>d < length dst\<close> by (simp add: upd_conv_take_nth_drop)
      ultimately show ?thesis using \<open>d < length dst\<close> e IH by (simp add: step)
    next
      case False
      have d: "drop p src = src ! p # drop (p + 1) src"
        using p by (simp add: Cons_nth_drop_Suc)
      have "d + 1 + (length src - (p + 1)) = d + (length src - p)" using p by simp
      with False p \<open>d < length dst\<close> IH show ?thesis
        by (simp add: step d take_Suc_conv_app_nth)
    qed
  qed
qed

lemma X86_forward_loop_exit:
  "\<not> int p < end \<Longrightarrow> X86_forward_loop src end p d dst = Some (p, d, dst)"
  by (subst X86_forward_loop.simps) simp

lemma X86_forward_loop_plain:
  assumes "int p < end" "end \<le> int (length src) - 8" "\<not> X86_is_jump (src ! p)"
  shows "X86_forward_loop src end p d dst =
     (if d < length dst then X86_forward_loop src end (p + 1) (d + 1) (dst[d := src ! p])
      else None)"
proof -
  have "rd src p = Some (src ! p)" using assms by (intro rd_Some) linarith
  then show ?thesis using assms(1,3)
    by (subst X86_forward_loop.simps) (simp add: wr_bind X86_is_jump_def)
qed

lemma X86_forward_loop_escape:
  assumes "int p < end" "end \<le> int (length src) - 8" "X86_is_jump (src ! p)"
    "X86_conflict (src ! (p + 1))"
  shows "X86_forward_loop src end p d dst =
     (if d + 2 < length dst then
        X86_forward_loop src end (p + 2) (d + 3)
          (dst[d := src ! p, Suc d := X86_ESCAPE, d + 2 := src ! (p + 1)])
      else None)"
proof -
  have "rd src p = Some (src ! p)" "rd src (Suc p) = Some (src ! Suc p)"
    using assms by (intro rd_Some; linarith)+
  then show ?thesis using assms(1,3,4)
    by (subst X86_forward_loop.simps) (auto simp add: wr_bind X86_is_jump_def X86_conflict_def)
qed

lemma X86_forward_loop_skip:
  assumes "int p < end" "end \<le> int (length src) - 8" "X86_is_jump (src ! p)"
    "\<not> X86_conflict (src ! (p + 1))" "src ! (p + 4) \<noteq> 0" "src ! (p + 4) \<noteq> 255"
  shows "X86_forward_loop src end p d dst =
     (if d < length dst then X86_forward_loop src end (p + 1) (d + 1) (dst[d := src ! p])
      else None)"
proof -
  have "rd src p = Some (src ! p)" "rd src (Suc p) = Some (src ! Suc p)"
    "rd src (p + 4) = Some (src ! (p + 4))"
    using assms by (intro rd_Some; linarith)+
  then show ?thesis using assms(1,3-)
    by (subst X86_forward_loop.simps) (simp add: wr_bind X86_is_jump_def X86_conflict_def)
qed

lemma X86_forward_loop_jump:
  assumes "int p < end" "end \<le> int (length src) - 8" "X86_is_jump (src ! p)"
    "\<not> X86_conflict (src ! (p + 1))" "src ! (p + 4) = 0 \<or> src ! (p + 4) = 255"
  shows "X86_forward_loop src end p d dst =
     (let a = X86_forward_addr (src ! (p + 1)) (src ! (p + 2)) (src ! (p + 3)) (src ! (p + 4)) (p + 1)
      in if d + 4 < length dst then
           X86_forward_loop src end (p + 5) (d + 5)
             (dst[d := src ! p, Suc d := src ! (p + 4) + 1,
                  d + 2 := X86_ADDRESS_MASK XOR ucast (signed_drop_bit 16 a),
                  d + 3 := X86_ADDRESS_MASK XOR ucast (signed_drop_bit 8 a),
                  d + 4 := X86_ADDRESS_MASK XOR ucast a])
         else None)"
proof -
  have "rd src p = Some (src ! p)" "rd src (Suc p) = Some (src ! Suc p)"
    "rd src (p + 2) = Some (src ! (p + 2))" "rd src (p + 3) = Some (src ! (p + 3))"
    "rd src (p + 4) = Some (src ! (p + 4))"
    using assms by (intro rd_Some; linarith)+
  then show ?thesis using assms(1,3-)
    by (subst X86_forward_loop.simps)
      (auto simp add: wr_bind X86_is_jump_def X86_conflict_def X86_forward_addr_def Let_def)
qed

lemma X86_forward_encoded:
  assumes "end = int (length src) - 8"
    and "X86_forward_loop src end p d dst = Some (p', d', dst')"
    and "X86_copy_rest src p' d' dst' = Some (p'', d'', dst'')"
    and "p \<le> length src"
  shows "p'' = length src \<and> take d'' dst'' = take d dst @ X86_encoded p (drop p src) \<and>
         d'' = d + length (X86_encoded p (drop p src))"
  using assms(2-)
proof (induction "length src - p" arbitrary: p d dst rule: less_induct)
  case less
  note lp = less.prems
  have e8: "end \<le> int (length src) - 8" using assms(1) by simp
  show ?case
  proof (cases "int p < end")
    case False
    then have short: "length (drop p src) \<le> 8" using assms(1) by simp
    from False lp(1) have "p' = p" "d' = d" "dst' = dst" by (simp_all add: X86_forward_loop_exit)
    with lp(2) lp(3) show ?thesis
      by (auto simp add: X86_copy_rest_eq X86_encoded_short [OF short] split: if_splits)
  next
    case True
    then have long: "8 < length (drop p src)" and pl: "p + 8 < length src"
      using assms(1) by simp_all
    have n: "drop p src ! k = src ! (p + k)" if "k \<le> 8" for k
      using pl that by simp
    have dd: "drop k (drop p src) = drop (p + k) src" for k
      by (simp add: add.commute)
    show ?thesis
    proof (cases "drop p src" rule: X86_encoded_cases)
      case short
      with long show ?thesis by simp
    next
      case plain
      then have nj: "\<not> X86_is_jump (src ! p)" using n [of 0] by simp
      from lp(1) have dl: "d < length dst"
        and rec: "X86_forward_loop src end (p + 1) (d + 1) (dst[d := src ! p]) = Some (p', d', dst')"
        by (simp_all add: X86_forward_loop_plain [OF True e8 nj] split: if_splits)
      have ih: "p'' = length src \<and>
          take d'' dst'' = take (d + 1) (dst[d := src ! p]) @ X86_encoded (p + 1) (drop (p + 1) src) \<and>
          d'' = d + 1 + length (X86_encoded (p + 1) (drop (p + 1) src))"
        using pl by (intro less.hyps [OF _ rec lp(2)]) simp_all
      have tk: "take (d + 1) (dst[d := src ! p]) = take d dst @ [src ! p]"
        using dl by (simp add: take_update_1)
      have en: "X86_encoded p (drop p src) = src ! p # X86_encoded (p + 1) (drop (p + 1) src)"
        using X86_encoded_plain [OF plain, of p] n [of 0] by (simp only: dd) simp
      show ?thesis unfolding en using ih unfolding tk by auto
    next
      case escape
      then have j: "X86_is_jump (src ! p)" "X86_conflict (src ! (p + 1))"
        using n [of 0] n [of 1] by simp_all
      from lp(1) have dl: "d + 2 < length dst"
        and rec: "X86_forward_loop src end (p + 2) (d + 3)
             (dst[d := src ! p, Suc d := X86_ESCAPE, d + 2 := src ! (p + 1)]) = Some (p', d', dst')"
        by (simp_all add: X86_forward_loop_escape [OF True e8 j] split: if_splits)
      have ih: "p'' = length src \<and>
          take d'' dst'' = take (d + 3) (dst[d := src ! p, Suc d := X86_ESCAPE, d + 2 := src ! (p + 1)])
             @ X86_encoded (p + 2) (drop (p + 2) src) \<and>
          d'' = d + 3 + length (X86_encoded (p + 2) (drop (p + 2) src))"
        using pl by (intro less.hyps [OF _ rec lp(2)]) simp_all
      have tk: "take (d + 3) (dst[d := src ! p, Suc d := X86_ESCAPE, d + 2 := src ! (p + 1)]) =
          take d dst @ [src ! p, X86_ESCAPE, src ! (p + 1)]"
        using dl by (rule take_update_3)
      have en: "X86_encoded p (drop p src) =
          src ! p # X86_ESCAPE # src ! (p + 1) # X86_encoded (p + 2) (drop (p + 2) src)"
        using X86_encoded_escape [OF escape, of p] n [of 0] n [of 1] by (simp only: dd) simp
      show ?thesis unfolding en using ih unfolding tk by auto
    next
      case skip
      then have j: "X86_is_jump (src ! p)" "\<not> X86_conflict (src ! (p + 1))"
        "src ! (p + 4) \<noteq> 0" "src ! (p + 4) \<noteq> 255"
        using n [of 0] n [of 1] n [of 4] by simp_all
      from lp(1) have dl: "d < length dst"
        and rec: "X86_forward_loop src end (p + 1) (d + 1) (dst[d := src ! p]) = Some (p', d', dst')"
        by (simp_all add: X86_forward_loop_skip [OF True e8 j] split: if_splits)
      have ih: "p'' = length src \<and>
          take d'' dst'' = take (d + 1) (dst[d := src ! p]) @ X86_encoded (p + 1) (drop (p + 1) src) \<and>
          d'' = d + 1 + length (X86_encoded (p + 1) (drop (p + 1) src))"
        using pl by (intro less.hyps [OF _ rec lp(2)]) simp_all
      have tk: "take (d + 1) (dst[d := src ! p]) = take d dst @ [src ! p]"
        using dl by (simp add: take_update_1)
      have en: "X86_encoded p (drop p src) = src ! p # X86_encoded (p + 1) (drop (p + 1) src)"
        using X86_encoded_skip [OF skip, of p] n [of 0] by (simp only: dd) simp
      show ?thesis unfolding en using ih unfolding tk by auto
    next
      case jump
      then have j: "X86_is_jump (src ! p)" "\<not> X86_conflict (src ! (p + 1))"
        "src ! (p + 4) = 0 \<or> src ! (p + 4) = 255"
        using n [of 0] n [of 1] n [of 4] by auto
      define a where "a = X86_forward_addr (src ! (p + 1)) (src ! (p + 2)) (src ! (p + 3)) (src ! (p + 4)) (p + 1)"
      define b1 where "b1 = src ! (p + 4) + 1"
      define b2 where "b2 = X86_ADDRESS_MASK XOR ucast (signed_drop_bit 16 a)"
      define b3 where "b3 = X86_ADDRESS_MASK XOR ucast (signed_drop_bit 8 a)"
      define b4 where "b4 = X86_ADDRESS_MASK XOR ucast a"
      from lp(1) have dl: "d + 4 < length dst"
        and rec: "X86_forward_loop src end (p + 5) (d + 5)
            (dst[d := src ! p, Suc d := b1, d + 2 := b2, d + 3 := b3, d + 4 := b4]) = Some (p', d', dst')"
        by (simp_all add: X86_forward_loop_jump [OF True e8 j] Let_def a_def b1_def b2_def b3_def
            b4_def split: if_splits)
      have ih: "p'' = length src \<and>
          take d'' dst'' = take (d + 5) (dst[d := src ! p, Suc d := b1, d + 2 := b2, d + 3 := b3, d + 4 := b4])
             @ X86_encoded (p + 5) (drop (p + 5) src) \<and>
          d'' = d + 5 + length (X86_encoded (p + 5) (drop (p + 5) src))"
        using pl by (intro less.hyps [OF _ rec lp(2)]) simp_all
      have tk: "take (d + 5) (dst[d := src ! p, Suc d := b1, d + 2 := b2, d + 3 := b3, d + 4 := b4]) =
          take d dst @ [src ! p, b1, b2, b3, b4]"
        using dl by (rule take_update_5)
      have en: "X86_encoded p (drop p src) =
          src ! p # b1 # b2 # b3 # b4 # X86_encoded (p + 5) (drop (p + 5) src)"
        using X86_encoded_jump [OF jump, of p] n [of 0] n [of 1] n [of 2] n [of 3] n [of 4]
        by (simp only: dd) (simp add: Let_def a_def b1_def b2_def b3_def b4_def)
      show ?thesis unfolding en using ih unfolding tk by auto
    qed
  qed
qed

lemma X86_inverse_loop_exit:
  "\<not> int q < end \<Longrightarrow> X86_inverse_loop src end q d dst = Some (q, d, dst)"
  by (subst X86_inverse_loop.simps) simp

lemma X86_inverse_loop_plain:
  assumes "int q < end" "end \<le> int (length src) - 8" "\<not> X86_is_jump (src ! q)"
  shows "X86_inverse_loop src end q d dst =
     (if d < length dst then X86_inverse_loop src end (q + 1) (d + 1) (dst[d := src ! q])
      else None)"
proof -
  have "rd src q = Some (src ! q)" using assms by (intro rd_Some) linarith
  then show ?thesis using assms(1,3)
    by (subst X86_inverse_loop.simps) (simp add: wr_bind X86_is_jump_def)
qed

lemma X86_inverse_loop_escape:
  assumes "int q < end" "end \<le> int (length src) - 8" "X86_is_jump (src ! q)"
    "src ! (q + 1) = X86_ESCAPE"
  shows "X86_inverse_loop src end q d dst =
     (if d < length dst then X86_inverse_loop src end (q + 2) (d + 1) (dst[d := src ! q])
      else None)"
proof -
  have "rd src q = Some (src ! q)" "rd src (Suc q) = Some (src ! Suc q)"
    using assms by (intro rd_Some; linarith)+
  then show ?thesis using assms(1,3,4)
    by (subst X86_inverse_loop.simps) (simp add: wr_bind X86_is_jump_def)
qed

lemma X86_inverse_loop_skip:
  assumes "int q < end" "end \<le> int (length src) - 8" "X86_is_jump (src ! q)"
    "src ! (q + 1) \<noteq> X86_ESCAPE" "src ! (q + 1) \<noteq> 1" "src ! (q + 1) \<noteq> 0"
  shows "X86_inverse_loop src end q d dst =
     (if d < length dst then X86_inverse_loop src end (q + 1) (d + 1) (dst[d := src ! q])
      else None)"
proof -
  have "rd src q = Some (src ! q)" "rd src (Suc q) = Some (src ! Suc q)"
    using assms by (intro rd_Some; linarith)+
  then show ?thesis using assms(1,3-)
    by (subst X86_inverse_loop.simps) (simp add: wr_bind X86_is_jump_def)
qed

lemma X86_inverse_loop_jump:
  assumes "int q < end" "end \<le> int (length src) - 8" "X86_is_jump (src ! q)"
    "src ! (q + 1) = 1 \<or> src ! (q + 1) = 0"
  shows "X86_inverse_loop src end q d dst =
     (let a = X86_inverse_addr (src ! (q + 1)) (src ! (q + 2)) (src ! (q + 3)) (src ! (q + 4)) (d + 1)
      in if d + 4 < length dst then
           X86_inverse_loop src end (q + 5) (d + 5)
             (dst[d := src ! q, Suc d := ucast a, d + 2 := ucast (signed_drop_bit 8 a),
                  d + 3 := ucast (signed_drop_bit 16 a), d + 4 := src ! (q + 1) - 1])
         else None)"
proof -
  have "rd src q = Some (src ! q)" "rd src (Suc q) = Some (src ! Suc q)"
    "rd src (q + 2) = Some (src ! (q + 2))" "rd src (q + 3) = Some (src ! (q + 3))"
    "rd src (q + 4) = Some (src ! (q + 4))"
    using assms by (intro rd_Some; linarith)+
  then show ?thesis using assms(1,3-)
    by (subst X86_inverse_loop.simps)
      (auto simp add: wr_bind X86_is_jump_def X86_ESCAPE_def X86_inverse_addr_def Let_def)
qed

lemma X86_decoded_cases [case_names short plain escape skip jump]:
  assumes "length ys \<le> 8 \<Longrightarrow> P"
    and "8 < length ys \<Longrightarrow> \<not> X86_is_jump (ys ! 0) \<Longrightarrow> P"
    and "8 < length ys \<Longrightarrow> X86_is_jump (ys ! 0) \<Longrightarrow> ys ! 1 = X86_ESCAPE \<Longrightarrow> P"
    and "8 < length ys \<Longrightarrow> X86_is_jump (ys ! 0) \<Longrightarrow> ys ! 1 \<noteq> X86_ESCAPE \<Longrightarrow>
         ys ! 1 \<noteq> 1 \<Longrightarrow> ys ! 1 \<noteq> 0 \<Longrightarrow> P"
    and "8 < length ys \<Longrightarrow> X86_is_jump (ys ! 0) \<Longrightarrow> ys ! 1 = 1 \<or> ys ! 1 = 0 \<Longrightarrow> P"
  shows P
  using assms by (cases "length ys \<le> 8"; cases "X86_is_jump (ys ! 0)"; cases "ys ! 1 = X86_ESCAPE";
      cases "ys ! 1 = 1 \<or> ys ! 1 = 0") auto

lemma X86_inverse_decoded:
  assumes "q \<le> length src"
    and "d + length (X86_decoded d (drop q src)) \<le> length dst"
  shows "\<exists>dst'. X86_inverse_run src q d dst =
            Some (length src, d + length (X86_decoded d (drop q src)), dst') \<and>
          take (d + length (X86_decoded d (drop q src))) dst' =
            take d dst @ X86_decoded d (drop q src)"
  using assms
proof (induction "length src - q" arbitrary: q d dst rule: less_induct)
  case less
  note lp = less.prems
  define lim where "lim = int (length src) - 8"
  have e8: "lim \<le> int (length src) - 8" by (simp add: lim_def)
  have run: "X86_inverse_run src q d dst =
      X86_inverse_loop src lim q d dst \<bind> (\<lambda>(srcIdx, dstIdx, d). X86_copy_rest src srcIdx dstIdx d)"
    for q d dst by (simp add: X86_inverse_run_def lim_def)
  show ?case
  proof (cases "int q < lim")
    case False
    then have short: "length (drop q src) \<le> 8" by (simp add: lim_def)
    show ?thesis
      using lp False
      by (auto simp add: run X86_inverse_loop_exit X86_copy_rest_eq X86_decoded_short [OF short])
  next
    case True
    then have long: "8 < length (drop q src)" and ql: "q + 8 < length src"
      by (simp_all add: lim_def)
    have n: "drop q src ! k = src ! (q + k)" if "k \<le> 8" for k
      using ql that by simp
    have dd: "drop k (drop q src) = drop (q + k) src" for k
      by (simp add: add.commute)
    show ?thesis
    proof (cases "drop q src" rule: X86_decoded_cases)
      case short
      with long show ?thesis by simp
    next
      case plain
      then have nj: "\<not> X86_is_jump (src ! q)" using n [of 0] by simp
      have de: "X86_decoded d (drop q src) = src ! q # X86_decoded (d + 1) (drop (q + 1) src)"
        using X86_decoded_plain [OF plain, of d] n [of 0] by (simp only: dd) simp
      from lp(2) have dl: "d < length dst" by (simp add: de)
      have st: "X86_inverse_run src q d dst = X86_inverse_run src (q + 1) (d + 1) (dst[d := src ! q])"
        using dl by (simp only: run X86_inverse_loop_plain [OF True e8 nj]) simp
      have "\<exists>dst'. X86_inverse_run src (q + 1) (d + 1) (dst[d := src ! q]) =
            Some (length src, d + 1 + length (X86_decoded (d + 1) (drop (q + 1) src)), dst') \<and>
          take (d + 1 + length (X86_decoded (d + 1) (drop (q + 1) src))) dst' =
            take (d + 1) (dst[d := src ! q]) @ X86_decoded (d + 1) (drop (q + 1) src)"
        using ql lp(2) by (intro less.hyps) (simp_all add: de)
      moreover have "take (d + 1) (dst[d := src ! q]) = take d dst @ [src ! q]"
        using dl by (simp add: take_update_1)
      ultimately show ?thesis unfolding st de by auto
    next
      case escape
      then have j: "X86_is_jump (src ! q)" "src ! (q + 1) = X86_ESCAPE"
        using n [of 0] n [of 1] by simp_all
      have de: "X86_decoded d (drop q src) = src ! q # X86_decoded (d + 1) (drop (q + 2) src)"
        using X86_decoded_escape [OF escape, of d] n [of 0] by (simp only: dd) simp
      from lp(2) have dl: "d < length dst" by (simp add: de)
      have st: "X86_inverse_run src q d dst = X86_inverse_run src (q + 2) (d + 1) (dst[d := src ! q])"
        using dl by (simp only: run X86_inverse_loop_escape [OF True e8 j]) simp
      have "\<exists>dst'. X86_inverse_run src (q + 2) (d + 1) (dst[d := src ! q]) =
            Some (length src, d + 1 + length (X86_decoded (d + 1) (drop (q + 2) src)), dst') \<and>
          take (d + 1 + length (X86_decoded (d + 1) (drop (q + 2) src))) dst' =
            take (d + 1) (dst[d := src ! q]) @ X86_decoded (d + 1) (drop (q + 2) src)"
        using ql lp(2) by (intro less.hyps) (simp_all add: de)
      moreover have "take (d + 1) (dst[d := src ! q]) = take d dst @ [src ! q]"
        using dl by (simp add: take_update_1)
      ultimately show ?thesis unfolding st de by auto
    next
      case skip
      then have j: "X86_is_jump (src ! q)" "src ! (q + 1) \<noteq> X86_ESCAPE" "src ! (q + 1) \<noteq> 1"
        "src ! (q + 1) \<noteq> 0"
        using n [of 0] n [of 1] by simp_all
      have de: "X86_decoded d (drop q src) = src ! q # X86_decoded (d + 1) (drop (q + 1) src)"
        using X86_decoded_skip [OF skip, of d] n [of 0] by (simp only: dd) simp
      from lp(2) have dl: "d < length dst" by (simp add: de)
      have st: "X86_inverse_run src q d dst = X86_inverse_run src (q + 1) (d + 1) (dst[d := src ! q])"
        using dl by (simp only: run X86_inverse_loop_skip [OF True e8 j]) simp
      have "\<exists>dst'. X86_inverse_run src (q + 1) (d + 1) (dst[d := src ! q]) =
            Some (length src, d + 1 + length (X86_decoded (d + 1) (drop (q + 1) src)), dst') \<and>
          take (d + 1 + length (X86_decoded (d + 1) (drop (q + 1) src))) dst' =
            take (d + 1) (dst[d := src ! q]) @ X86_decoded (d + 1) (drop (q + 1) src)"
        using ql lp(2) by (intro less.hyps) (simp_all add: de)
      moreover have "take (d + 1) (dst[d := src ! q]) = take d dst @ [src ! q]"
        using dl by (simp add: take_update_1)
      ultimately show ?thesis unfolding st de by auto
    next
      case jump
      then have j: "X86_is_jump (src ! q)" "src ! (q + 1) = 1 \<or> src ! (q + 1) = 0"
        using n [of 0] n [of 1] by simp_all
      define a where "a = X86_inverse_addr (src ! (q + 1)) (src ! (q + 2)) (src ! (q + 3)) (src ! (q + 4)) (d + 1)"
      define b1 :: byte where "b1 = ucast a"
      define b2 :: byte where "b2 = ucast (signed_drop_bit 8 a)"
      define b3 :: byte where "b3 = ucast (signed_drop_bit 16 a)"
      define b4 where "b4 = src ! (q + 1) - 1"
      have de: "X86_decoded d (drop q src) =
          src ! q # b1 # b2 # b3 # b4 # X86_decoded (d + 5) (drop (q + 5) src)"
        using X86_decoded_jump [OF jump, of d] n [of 0] n [of 1] n [of 2] n [of 3] n [of 4]
        by (simp only: dd) (simp add: Let_def a_def b1_def b2_def b3_def b4_def)
      from lp(2) have dl: "d + 4 < length dst" by (simp add: de)
      have st: "X86_inverse_run src q d dst = X86_inverse_run src (q + 5) (d + 5)
          (dst[d := src ! q, Suc d := b1, d + 2 := b2, d + 3 := b3, d + 4 := b4])"
        using dl by (simp only: run X86_inverse_loop_jump [OF True e8 j])
          (simp add: Let_def a_def b1_def b2_def b3_def b4_def)
      have "\<exists>dst'. X86_inverse_run src (q + 5) (d + 5)
               (dst[d := src ! q, Suc d := b1, d + 2 := b2, d + 3 := b3, d + 4 := b4]) =
            Some (length src, d + 5 + length (X86_decoded (d + 5) (drop (q + 5) src)), dst') \<and>
          take (d + 5 + length (X86_decoded (d + 5) (drop (q + 5) src))) dst' =
            take (d + 5) (dst[d := src ! q, Suc d := b1, d + 2 := b2, d + 3 := b3, d + 4 := b4])
              @ X86_decoded (d + 5) (drop (q + 5) src)"
        using ql lp(2) by (intro less.hyps) (simp_all add: de)
      then obtain dst' where r: "X86_inverse_run src (q + 5) (d + 5)
               (dst[d := src ! q, Suc d := b1, d + 2 := b2, d + 3 := b3, d + 4 := b4]) =
            Some (length src, d + 5 + length (X86_decoded (d + 5) (drop (q + 5) src)), dst')"
        and t: "take (d + 5 + length (X86_decoded (d + 5) (drop (q + 5) src))) dst' =
            take (d + 5) (dst[d := src ! q, Suc d := b1, d + 2 := b2, d + 3 := b3, d + 4 := b4])
              @ X86_decoded (d + 5) (drop (q + 5) src)"
        by blast
      have tk: "take (d + 5) (dst[d := src ! q, Suc d := b1, d + 2 := b2, d + 3 := b3, d + 4 := b4])
          = take d dst @ [src ! q, b1, b2, b3, b4]"
        using dl by (rule take_update_5)
      have len: "d + length (X86_decoded d (drop q src)) =
          d + 5 + length (X86_decoded (d + 5) (drop (q + 5) src))"
        by (simp add: de)
      show ?thesis
      proof (intro exI conjI)
        show "X86_inverse_run src q d dst =
            Some (length src, d + length (X86_decoded d (drop q src)), dst')"
          by (simp only: st r len)
        show "take (d + length (X86_decoded d (drop q src))) dst' =
            take d dst @ X86_decoded d (drop q src)"
          by (simp only: len t tk) (simp add: de)
      qed
    qed
  qed
qed

lemma X86_Forward_SomeD:
  assumes "X86_Forward src dst = Some ((r, w, None), d)"
  shows "elems src \<noteq> [] \<and> r = length (elems src) \<and>
         take w d = X86_encoded 0 (elems src) \<and> w = length (X86_encoded 0 (elems src))"
proof -
  from assms have ne: "elems src \<noteq> []"
    by (auto simp add: X86_Forward_def addr0_def split: if_splits)
  from assms obtain p' d' dst' where
    l: "X86_forward_loop (elems src) (int (length (elems src)) - 8) 0 0 (elems dst) = Some (p', d', dst')"
    and c: "X86_copy_rest (elems src) p' d' dst' = Some (r, w, d)"
    by (auto simp add: X86_Forward_def Let_def bind_eq_Some_conv split: if_splits)
  from X86_forward_encoded [OF refl l c] ne show ?thesis by auto
qed

section \<open>Properties of the X86 codec\<close>

text \<open>
  C8 (as stated, refuted at the boundary). The claim puts \<open>n = 2^30\<close> on the side of
  \<open>n + max(32, n/16)\<close>; the code's guard is \<^verbatim>\<open>srcLen >= 1<<30\<close>, so at exactly
  \<open>2^30\<close> the result is \<open>n\<close>.
\<close>

theorem X86_MaxEncodedLen_boundary_counterexample:
  "X86_MaxEncodedLen (2 ^ 30) = 2 ^ 30 \<and>
   X86_MaxEncodedLen (2 ^ 30) \<noteq> 2 ^ 30 + max 32 (2 ^ 30 sdiv 16)"
  by (simp add: X86_MaxEncodedLen_def signed_divide_int_def)

text \<open>
  C8 (amended). For every \<open>n\<close> below \<open>2^30\<close>, \<^verbatim>\<open>MaxEncodedLen(n)\<close> is
  \<open>n + max(32, n/16)\<close> with Go's truncating division; from \<open>2^30\<close> on it is \<open>n\<close>.
\<close>

theorem X86_MaxEncodedLen_value:
  "X86_MaxEncodedLen n = (if n < 2 ^ 30 then n + max 32 (n sdiv 16) else n)"
proof (cases "n \<le> 512")
  case True
  have "n sdiv 16 \<le> 32"
  proof (cases "0 \<le> n")
    case True
    from \<open>n \<le> 512\<close> have "n div 16 \<le> 512 div 16" by (intro zdiv_mono1) simp_all
    with True show ?thesis by (simp add: signed_divide_int_def sgn_if)
  next
    case False
    then have "n sdiv 16 = - (\<bar>n\<bar> div 16)" by (simp add: signed_divide_int_def sgn_if)
    moreover have "0 \<le> \<bar>n\<bar> div 16" by simp
    ultimately show ?thesis by linarith
  qed
  with True show ?thesis by (simp add: X86_MaxEncodedLen_def max_def)
next
  case False
  then have "n sdiv 16 = n div 16" by (simp add: signed_divide_int_def sgn_if)
  moreover from False have "513 div 16 \<le> n div 16" by (intro zdiv_mono1) simp_all
  then have "32 \<le> n div 16" by simp
  ultimately show ?thesis using False by (simp add: X86_MaxEncodedLen_def max_def)
qed


text \<open>
  C1. If \<^verbatim>\<open>Forward\<close> succeeds on a source block (no panic, \<^verbatim>\<open>nil\<close> error), then \<^verbatim>\<open>Inverse\<close>,
  given the \<open>w\<close> bytes that \<^verbatim>\<open>Forward\<close> wrote and any other destination at least as long as
  the source, succeeds, reads all \<open>w\<close> bytes, writes as many bytes as the source has, and
  these are the source's bytes. No bound on the length is needed, so this holds in
  particular for every block shorter than \<open>2^30\<close>.
\<close>

theorem X86_roundtrip:
  assumes "X86_Forward src dst = Some ((r, w, None), d)"
    and "addr dst2 \<noteq> addr dst"
    and "length (elems src) \<le> length (elems dst2)"
  shows "\<exists>d2. X86_Inverse \<lparr>addr = addr dst, elems = take w d\<rparr> dst2 =
                 Some ((w, length (elems src), None), d2) \<and>
              take (length (elems src)) d2 = elems src"
proof -
  let ?E = "X86_encoded 0 (elems src)"
  from X86_Forward_SomeD [OF assms(1)]
  have ne: "elems src \<noteq> []" and E: "take w d = ?E" and w: "w = length ?E" by auto
  have dec: "X86_decoded 0 (drop 0 ?E) = elems src" by (simp add: X86_decoded_encoded)
  have "length (elems src) \<le> length ?E" by (rule length_X86_encoded)
  with ne have Ene: "?E \<noteq> []" by auto
  from ne assms(3) have d2ne: "elems dst2 \<noteq> []" by auto
  from X86_inverse_decoded [of 0 ?E 0 "elems dst2"] assms(3)
  obtain d2 where run: "X86_inverse_run ?E 0 0 (elems dst2) = Some (length ?E, length (elems src), d2)"
    and tk: "take (length (elems src)) d2 = elems src"
    unfolding dec by auto
  have "X86_Inverse \<lparr>addr = addr dst, elems = ?E\<rparr> dst2 = Some ((length ?E, length (elems src), None), d2)"
    using run assms(2) Ene d2ne
    by (auto simp add: X86_Inverse_def X86_inverse_run_def addr0_def Let_def bind_eq_Some_conv)
  with tk show ?thesis by (auto simp add: E w [symmetric])
qed

theorem X86_roundtrip_witness:
  "X86_Forward \<lparr>addr = 0, elems = [0xE8, 0x10, 0x20, 0x30, 0x00, 0xE9, 0x01, 7, 8, 0xE8, 5, 6, 7, 8, 9, 10, 11, 12, 13, 14]\<rparr>
      \<lparr>addr = 100, elems = replicate 52 0\<rparr> =
    Some ((20, 21, None),
      [0xE8, 0x01, 0xE5, 0xF5, 0xC4, 0xE9, 0x02, 0x01, 7, 8, 0xE8, 5, 6, 7, 8, 9, 10, 11, 12, 13, 14] @ replicate 31 0) \<and>
   (\<exists>d2. X86_Inverse \<lparr>addr = 100, elems = [0xE8, 0x01, 0xE5, 0xF5, 0xC4, 0xE9, 0x02, 0x01, 7, 8, 0xE8, 5, 6, 7, 8, 9, 10, 11, 12, 13, 14]\<rparr>
      \<lparr>addr = 200, elems = replicate 20 0\<rparr> = Some ((21, 20, None), d2) \<and>
      take 20 d2 = [0xE8, 0x10, 0x20, 0x30, 0x00, 0xE9, 0x01, 7, 8, 0xE8, 5, 6, 7, 8, 9, 10, 11, 12, 13, 14])"
proof -
  have f: "X86_Forward \<lparr>addr = 0, elems = [0xE8, 0x10, 0x20, 0x30, 0x00, 0xE9, 0x01, 7, 8, 0xE8, 5, 6, 7, 8, 9, 10, 11, 12, 13, 14]\<rparr>
      \<lparr>addr = 100, elems = replicate 52 0\<rparr> =
    Some ((20, 21, None),
      [0xE8, 0x01, 0xE5, 0xF5, 0xC4, 0xE9, 0x02, 0x01, 7, 8, 0xE8, 5, 6, 7, 8, 9, 10, 11, 12, 13, 14] @ replicate 31 0)"
    by code_simp
  from X86_roundtrip [OF f, of "\<lparr>addr = 200, elems = replicate 20 0\<rparr>"] f
  show ?thesis by (simp add: eval_nat_numeral)
qed

text \<open>
  C9 (the code departs from the claim). A block of 128 bytes whose only jump byte,
  \<^verbatim>\<open>E8 00 00 00 00\<close>, has a conflicting first operand byte holds no valid relative jump in
  the claim's sense, fewer than \<open>128/128 = 1\<close>. The counting loop tests \<^verbatim>\<open>src[i]\<close>, the
  instruction byte, for the conflict instead of \<^verbatim>\<open>src[i+1]\<close>, counts one jump, and
  \<^verbatim>\<open>Forward\<close> transforms the block: it returns \<open>(128, 129, nil)\<close> and writes to the
  destination.
\<close>

theorem X86_Forward_counts_conflicting_jump:
  "spec_valid_jumps (0xE8 # replicate 127 0) = 0 \<and> (0 :: int) < 128 sdiv 128 \<and>
   X86_Forward \<lparr>addr = 0, elems = 0xE8 # replicate 127 0\<rparr> \<lparr>addr = 1000, elems = replicate 160 0\<rparr>
     = Some ((128, 129, None), 0xE8 # 0x02 # replicate 158 0)"
  by code_simp


end
